theory Spec2Isabelle
  imports Main
begin

section \<open>Machine integers\<close>

text \<open>
  The caching bucket of \<^verbatim>\<open>caching_bucket.go\<close>. Offsets, lengths and durations are
  \<^verbatim>\<open>int64\<close> in the source (\<^verbatim>\<open>int\<close> is 64 bits wide as well on the platforms the code is
  built for). They are modelled as integers, and every addition, subtraction and
  multiplication of the source is followed by the wrap-around of two's complement.
\<close>

definition wrap64 :: "int \<Rightarrow> int" where
  "wrap64 x = (x + 2 ^ 63) mod 2 ^ 64 - 2 ^ 63"

definition int64_range :: "int \<Rightarrow> bool" where
  "int64_range i = (- (2 ^ 63) \<le> i \<and> i < 2 ^ 63)"

section \<open>Range merger\<close>

record rng =
  rstart :: int
  rend :: int

text \<open>
  \<^verbatim>\<open>mergeRanges\<close> works in place: \<open>lst\<close> is \<^verbatim>\<open>input[last]\<close>, the output gap being grown, and
  the list is the rest of the input from \<^verbatim>\<open>ix\<close> on. The slots written lie before \<^verbatim>\<open>ix\<close>, so
  no slot is read after it was overwritten.
\<close>

fun merge_from :: "rng \<Rightarrow> rng list \<Rightarrow> int \<Rightarrow> rng list" where
  "merge_from lst [] limit = [lst]"
| "merge_from lst (x # xs) limit =
     (if wrap64 (rstart x - rend lst) \<le> limit
      then merge_from (lst\<lparr>rend := rend x\<rparr>) xs limit
      else lst # merge_from x xs limit)"

definition mergeRanges :: "rng list \<Rightarrow> int \<Rightarrow> rng list" where
  "mergeRanges input limit =
     (case input of [] \<Rightarrow> [] | x # xs \<Rightarrow> merge_from x xs limit)"

text \<open>Sorted by start and non-overlapping: every gap ends before the next one starts.\<close>

fun sorted_gaps :: "rng list \<Rightarrow> bool" where
  "sorted_gaps [] = True"
| "sorted_gaps [x] = (rstart x \<le> rend x)"
| "sorted_gaps (x # y # ys) = (rstart x \<le> rend x \<and> rend x \<le> rstart y \<and> sorted_gaps (y # ys))"

text \<open>The gaps are byte intervals between \<open>lo\<close> and \<open>hi\<close>.\<close>

definition gaps_within :: "int \<Rightarrow> int \<Rightarrow> rng list \<Rightarrow> bool" where
  "gaps_within lo hi gs = (\<forall>g \<in> set gs. lo \<le> rstart g \<and> rend g \<le> hi)"

text \<open>The length of a gap as the fetch computes it, \<^verbatim>\<open>m.end - m.start\<close>, summed over the list.\<close>

definition total_len :: "rng list \<Rightarrow> int" where
  "total_len gs = sum_list (map (\<lambda>g. wrap64 (rend g - rstart g)) gs)"

fun apart :: "int \<Rightarrow> rng list \<Rightarrow> bool" where
  "apart t [] = True"
| "apart t [x] = True"
| "apart t (x # y # ys) = (t < wrap64 (rstart y - rend x) \<and> apart t (y # ys))"

subsection \<open>The doubling-tolerance merge loop of \<^verbatim>\<open>fetchMissingSubranges\<close>\<close>



subsection \<open>Cache-key codec\<close>

type_synonym VerbType = string

definition ExistsVerb :: VerbType where "ExistsVerb = ''exists''"
definition ContentVerb :: VerbType where "ContentVerb = ''content''"
definition IterVerb :: VerbType where "IterVerb = ''iter''"
definition AttributesVerb :: VerbType where "AttributesVerb = ''attrs''"
definition SubrangeVerb :: VerbType where "SubrangeVerb = ''subrange''"

record BucketCacheKey =
  Verb :: VerbType
  Name :: string
  Start :: int
  End :: int

text \<open>\<^verbatim>\<open>%d\<close> of \<^verbatim>\<open>fmt.Sprintf\<close>: decimal digits, with a minus sign for a negative number.\<close>

definition digit_char :: "nat \<Rightarrow> char" where
  "digit_char d = char_of (48 + d)"

function dec_digits :: "nat \<Rightarrow> string" where
  "dec_digits n = (if n < 10 then [digit_char n] else dec_digits (n div 10) @ [digit_char (n mod 10)])"
  by pat_completeness auto
termination
  by (relation "measure id") auto

definition format_int :: "int \<Rightarrow> string" where
  "format_int i = (if i < 0 then CHR ''-'' # dec_digits (nat (- i)) else dec_digits (nat i))"

definition BucketCacheKey_String :: "BucketCacheKey \<Rightarrow> string" where
  "BucketCacheKey_String ck =
     (if Start ck = 0 \<and> End ck = 0
      then Verb ck @ '':'' @ Name ck
      else Verb ck @ '':'' @ Name ck @ '':'' @ format_int (Start ck) @ '':'' @ format_int (End ck))"

definition IsValidVerb :: "VerbType \<Rightarrow> bool" where
  "IsValidVerb v =
     (v = ExistsVerb \<or> v = ContentVerb \<or> v = IterVerb \<or> v = AttributesVerb \<or> v = SubrangeVerb)"

text \<open>\<^verbatim>\<open>strings.Split(key, ":")\<close>: the empty string gives one empty field.\<close>

fun split_colon :: "string \<Rightarrow> string list" where
  "split_colon [] = [[]]"
| "split_colon (c # cs) =
     (if c = CHR '':'' then [] # split_colon cs
      else (case split_colon cs of [] \<Rightarrow> [[c]] | w # ws \<Rightarrow> (c # w) # ws))"

text \<open>
  \<^verbatim>\<open>strconv.ParseInt(s, 10, 64)\<close>: an optional sign, then one or more decimal digits; a value
  outside the \<^verbatim>\<open>int64\<close> range is an error as well.
\<close>

definition is_digit :: "char \<Rightarrow> bool" where
  "is_digit c = (48 \<le> (of_char c :: nat) \<and> (of_char c :: nat) \<le> 57)"

definition digits_value :: "string \<Rightarrow> int" where
  "digits_value ds = foldl (\<lambda>acc c. acc * 10 + (of_char c - 48)) 0 ds"

definition ParseInt :: "string \<Rightarrow> int option" where
  "ParseInt s =
     (if s = [] then None
      else
        let neg = (hd s = CHR ''-'');
            ds = (if hd s = CHR ''+'' \<or> hd s = CHR ''-'' then tl s else s)
        in if ds = [] \<or> \<not> list_all is_digit ds then None
           else
             let un = digits_value ds
             in if \<not> neg \<and> 2 ^ 63 \<le> un then None
                else if neg \<and> 2 ^ 63 < un then None
                else Some (if neg then - un else un))"

datatype key_error =
  ErrInvalidBucketCacheKeyFormat | ErrInvalidBucketCacheKeyVerb | ErrParseKeyInt

definition ParseBucketCacheKey :: "string \<Rightarrow> key_error + BucketCacheKey" where
  "ParseBucketCacheKey key =
     (let slice = split_colon key
      in if length slice < 2 then Inl ErrInvalidBucketCacheKeyFormat
         else
           let verb = slice ! 0
           in if \<not> IsValidVerb verb then Inl ErrInvalidBucketCacheKeyVerb
              else if verb = SubrangeVerb then
                (if length slice \<noteq> 4 then Inl ErrInvalidBucketCacheKeyFormat
                 else (case ParseInt (slice ! 2) of
                         None \<Rightarrow> Inl ErrParseKeyInt
                       | Some start \<Rightarrow>
                           (case ParseInt (slice ! 3) of
                              None \<Rightarrow> Inl ErrParseKeyInt
                            | Some e \<Rightarrow>
                                Inr \<lparr>Verb = verb, Name = slice ! 1, Start = start, End = e\<rparr>)))
              else if length slice \<noteq> 2 then Inl ErrInvalidBucketCacheKeyFormat
              else Inr \<lparr>Verb = verb, Name = slice ! 1, Start = 0, End = 0\<rparr>)"

section \<open>The cache, the underlying store and their calls\<close>

text \<open>
  A byte slice is \<open>None\<close> when it is \<^verbatim>\<open>nil\<close>. A \<^verbatim>\<open>map[string][]byte\<close> is a partial map into
  byte slices; reading a missing key gives \<^verbatim>\<open>nil\<close>, as in Go.
\<close>

type_synonym bytes = "string option"
type_synonym bytes_map = "string \<rightharpoonup> bytes"

definition lookup :: "bytes_map \<Rightarrow> string \<Rightarrow> bytes" where
  "lookup m k = (case m k of None \<Rightarrow> None | Some v \<Rightarrow> v)"

text \<open>One \<^verbatim>\<open>cache.Store(ctx, map[string][]byte{key: value}, ttl)\<close>.\<close>

record store_call =
  st_key :: string
  st_value :: bytes
  st_ttl :: int

text \<open>The calls made on the wrapped \<^verbatim>\<open>objstore.Bucket\<close>.\<close>

datatype bucket_call =
  CallGet string
  | CallGetRange string int int
  | CallAttributes string
  | CallIter string
  | CallIsObjNotFoundErr

text \<open>
  An \<^verbatim>\<open>error\<close> value: the package's own \<^verbatim>\<open>errObjNotFound\<close>, or any other error (of the
  underlying store).
\<close>

datatype 'e error = ErrObjNotFound | OtherError 'e

text \<open>\<^verbatim>\<open>strconv.ParseBool\<close> and \<^verbatim>\<open>strconv.FormatBool\<close>.\<close>

definition ParseBool :: "string \<Rightarrow> bool option" where
  "ParseBool s =
     (if s \<in> {''1'', ''t'', ''T'', ''TRUE'', ''true'', ''True''} then Some True
      else if s \<in> {''0'', ''f'', ''F'', ''FALSE'', ''false'', ''False''} then Some False
      else None)"

definition FormatBool :: "bool \<Rightarrow> string" where
  "FormatBool b = (if b then ''true'' else ''false'')"

section \<open>Whole-object reads\<close>

text \<open>
  \<^verbatim>\<open>storeExistsCacheEntry\<close>; \<open>since\<close> is what \<^verbatim>\<open>time.Since(ts)\<close> returns.
\<close>

definition storeExistsCacheEntry ::
  "string \<Rightarrow> bool \<Rightarrow> int \<Rightarrow> int \<Rightarrow> int \<Rightarrow> store_call list" where
  "storeExistsCacheEntry cachingKey exists since existsTTL doesntExistTTL =
     (let ttl = (if exists then wrap64 (existsTTL - since) else wrap64 (doesntExistTTL - since))
      in if 0 < ttl
         then [\<lparr>st_key = cachingKey, st_value = Some (FormatBool exists), st_ttl = ttl\<rparr>]
         else [])"

record get_cfg =
  g_existsTTL :: int
  g_doesntExistTTL :: int
  g_contentTTL :: int
  g_maxCacheableSize :: int

text \<open>
  The capturing reader. \<open>gr_buf\<close> is the capture buffer (\<open>None\<close> once \<^verbatim>\<open>g.buf\<close> is \<^verbatim>\<open>nil\<close>),
  \<open>gr_r\<close> the wrapped reader.
\<close>

record 'r getReader =
  gr_r :: 'r
  gr_buf :: "string option"
  gr_ttl :: int
  gr_cacheKey :: string
  gr_maxSize :: int

datatype 'r get_body =
  CachedContent bytes
  | Passthrough 'r
  | Capturing "'r getReader"

record ('e, 'r) get_out =
  go_result :: "'e error + 'r get_body"
  go_calls :: "bucket_call list"
  go_stores :: "store_call list"

text \<open>
  \<^verbatim>\<open>CachingBucket.Get\<close>. \<open>cfg\<close> is the result of \<^verbatim>\<open>findGetConfig\<close>, \<open>fetch\<close> the cache's
  \<^verbatim>\<open>Fetch\<close>, \<open>bkt_Get\<close> and \<open>bkt_IsObjNotFoundErr\<close> the methods of the underlying store,
  \<open>since\<close> the time that has passed when the existence entry is stored.
\<close>

definition Get ::
  "get_cfg option \<Rightarrow> (string list \<Rightarrow> bytes_map) \<Rightarrow> (string \<Rightarrow> 'e error + 'r)
   \<Rightarrow> ('e error \<Rightarrow> bool) \<Rightarrow> int \<Rightarrow> string \<Rightarrow> ('e, 'r) get_out" where
  "Get cfg fetch bkt_Get bkt_IsObjNotFoundErr since name =
     (case cfg of
        None \<Rightarrow>
          \<lparr>go_result = map_sum id Passthrough (bkt_Get name),
           go_calls = [CallGet name], go_stores = []\<rparr>
      | Some c \<Rightarrow>
          let contentKey = BucketCacheKey_String \<lparr>Verb = ContentVerb, Name = name, Start = 0, End = 0\<rparr>;
              existsKey = BucketCacheKey_String \<lparr>Verb = ExistsVerb, Name = name, Start = 0, End = 0\<rparr>;
              hits = fetch [contentKey, existsKey]
          in if lookup hits contentKey \<noteq> None
             then \<lparr>go_result = Inr (CachedContent (lookup hits contentKey)),
                   go_calls = [], go_stores = []\<rparr>
             else if (case lookup hits existsKey of
                        None \<Rightarrow> False
                      | Some ex \<Rightarrow> ParseBool ex = Some False)
             then \<lparr>go_result = Inl ErrObjNotFound, go_calls = [], go_stores = []\<rparr>
             else
               (case bkt_Get name of
                  Inl err \<Rightarrow>
                    \<lparr>go_result = Inl err,
                     go_calls = [CallGet name, CallIsObjNotFoundErr],
                     go_stores =
                       (if bkt_IsObjNotFoundErr err
                        then storeExistsCacheEntry existsKey False since
                               (g_existsTTL c) (g_doesntExistTTL c)
                        else [])\<rparr>
                | Inr reader \<Rightarrow>
                    \<lparr>go_result =
                       Inr (Capturing \<lparr>gr_r = reader, gr_buf = Some [], gr_ttl = g_contentTTL c,
                                       gr_cacheKey = contentKey,
                                       gr_maxSize = g_maxCacheableSize c\<rparr>),
                     go_calls = [CallGet name],
                     go_stores =
                       storeExistsCacheEntry existsKey True since
                         (g_existsTTL c) (g_doesntExistTTL c)\<rparr>))"

text \<open>\<^verbatim>\<open>CachingBucket.IsObjNotFoundErr\<close>; the second disjunct is evaluated only when the first fails.\<close>

definition IsObjNotFoundErr :: "('e error \<Rightarrow> bool) \<Rightarrow> 'e error \<Rightarrow> bool" where
  "IsObjNotFoundErr bkt_IsObjNotFoundErr err =
     (err = ErrObjNotFound \<or> bkt_IsObjNotFoundErr err)"

subsection \<open>The capturing reader\<close>

text \<open>What a \<^verbatim>\<open>Read\<close> returns as its error: \<^verbatim>\<open>nil\<close>, \<^verbatim>\<open>io.EOF\<close> or another error.\<close>

datatype 'e rerr = RNil | REOF | ROther 'e

text \<open>\<^verbatim>\<open>bytes.Buffer.Bytes\<close>: a buffer that was never written holds a \<^verbatim>\<open>nil\<close> slice.\<close>

definition buffer_bytes :: "string \<Rightarrow> bytes" where
  "buffer_bytes b = (if b = [] then None else Some b)"

text \<open>
  \<^verbatim>\<open>getReader.Read\<close>. The wrapped reader has returned \<open>n = length data\<close>, the bytes \<open>data\<close>
  (now in \<^verbatim>\<open>p[:n]\<close>) and \<open>err\<close>; \<open>since\<close> is what \<^verbatim>\<open>time.Since(g.startTime)\<close> returns. The result is
  the reader afterwards, the stores made, and what \<^verbatim>\<open>Read\<close> returns.
\<close>

definition gr_Read ::
  "'r getReader \<Rightarrow> string \<Rightarrow> 'e rerr \<Rightarrow> int \<Rightarrow> 'r getReader \<times> store_call list \<times> (nat \<times> 'e rerr)" where
  "gr_Read g data err since =
     (let n = int (length data);
          buf1 = (if 0 < n
                  then (case gr_buf g of
                          None \<Rightarrow> None
                        | Some b \<Rightarrow>
                            if wrap64 (int (length b) + n) \<le> gr_maxSize g then Some (b @ data)
                            else None)
                  else gr_buf g)
      in (case buf1 of
            Some b \<Rightarrow>
              if err = REOF
              then (let remainingTTL = wrap64 (gr_ttl g - since)
                    in (g\<lparr>gr_buf := None\<rparr>,
                        (if 0 < remainingTTL
                         then [\<lparr>st_key = gr_cacheKey g, st_value = buffer_bytes b,
                                st_ttl = remainingTTL\<rparr>]
                         else []),
                        (length data, err)))
              else (g\<lparr>gr_buf := buf1\<rparr>, [], (length data, err))
          | None \<Rightarrow> (g\<lparr>gr_buf := buf1\<rparr>, [], (length data, err))))"

definition gr_Close :: "'r getReader \<Rightarrow> 'r getReader" where
  "gr_Close g = g\<lparr>gr_buf := None\<rparr>"

text \<open>
  The life of a reader: each event is a \<^verbatim>\<open>Read\<close>, with what the wrapped reader returned and
  the time passed since the start, or a \<^verbatim>\<open>Close\<close>. \<open>gr_run\<close> gives the reader at the end and
  all the stores made.
\<close>

datatype 'e event = EvRead string "'e rerr" int | EvClose

fun gr_run :: "'r getReader \<Rightarrow> 'e event list \<Rightarrow> 'r getReader \<times> store_call list" where
  "gr_run g [] = (g, [])"
| "gr_run g (EvRead data err since # evs) =
     (fst (gr_run (fst (gr_Read g data err since)) evs),
      fst (snd (gr_Read g data err since)) @ snd (gr_run (fst (gr_Read g data err since)) evs))"
| "gr_run g (EvClose # evs) = gr_run (gr_Close g) evs"

text \<open>All the bytes the wrapped reader has returned, in order.\<close>

fun read_bytes :: "'e event list \<Rightarrow> string" where
  "read_bytes [] = []"
| "read_bytes (EvRead data err since # evs) = data @ read_bytes evs"
| "read_bytes (EvClose # evs) = read_bytes evs"

text \<open>A \<^verbatim>\<open>Close\<close> or an end of stream has occurred.\<close>

fun closed_or_ended :: "'e event list \<Rightarrow> bool" where
  "closed_or_ended [] = False"
| "closed_or_ended (EvRead data err since # evs) = (err = REOF \<or> closed_or_ended evs)"
| "closed_or_ended (EvClose # evs) = True"

section \<open>Directory listings\<close>

text \<open>
  The visitor \<open>f\<close> is a Go closure: it has a state of its own, \<open>'v\<close>, and returns an error or
  \<^verbatim>\<open>nil\<close>. \<open>replay\<close> is the loop over a decoded listing, which returns at the first error.
\<close>

fun replay :: "('v \<Rightarrow> string \<Rightarrow> 'e error option \<times> 'v) \<Rightarrow> 'v \<Rightarrow> string list \<Rightarrow> 'e error option \<times> 'v" where
  "replay f v [] = (None, v)"
| "replay f v (n # ns) =
     (case f v n of
        (Some err, v') \<Rightarrow> (Some err, v')
      | (None, v') \<Rightarrow> replay f v' ns)"

text \<open>
  Modelled from the spec: \<^verbatim>\<open>Iter\<close> of the underlying store, which is not part of the sources.
  The store enumerates the names \<open>entries\<close> in order and calls the function it is given on each;
  an error of that function ends the enumeration and is returned as it is; after the last
  entry the store returns its own result \<open>own_err\<close>.
\<close>

fun bkt_Iter ::
  "string list \<Rightarrow> 'e error option \<Rightarrow> ('s \<Rightarrow> string \<Rightarrow> 'e error option \<times> 's) \<Rightarrow> 's
   \<Rightarrow> 'e error option \<times> 's" where
  "bkt_Iter [] own_err cb s = (own_err, s)"
| "bkt_Iter (n # ns) own_err cb s =
     (case cb s n of
        (Some err, s') \<Rightarrow> (Some err, s')
      | (None, s') \<Rightarrow> bkt_Iter ns own_err cb s')"

record iter_cfg =
  i_ttl :: int

record ('e, 'v) iter_out =
  io_result :: "'e error option"
  io_visitor :: 'v
  io_calls :: "bucket_call list"
  io_stores :: "store_call list"

text \<open>
  The function handed to the store: \<^verbatim>\<open>list = append(list, s); return f(s)\<close>. The state is the
  list collected so far and the visitor's state.
\<close>

definition collecting ::
  "('v \<Rightarrow> string \<Rightarrow> 'e error option \<times> 'v) \<Rightarrow> string list \<times> 'v \<Rightarrow> string
   \<Rightarrow> 'e error option \<times> (string list \<times> 'v)" where
  "collecting f s n = (fst (f (snd s) n), (fst s @ [n], snd (f (snd s) n)))"

text \<open>
  \<^verbatim>\<open>CachingBucket.Iter\<close>. \<open>cfg\<close> is the result of \<^verbatim>\<open>findIterConfig\<close>, \<open>decode\<close> and \<open>encode\<close> the
  codec of the config (\<open>None\<close> for an error), \<open>since\<close> what \<^verbatim>\<open>time.Since(iterTime)\<close> returns.
\<close>

definition Iter ::
  "iter_cfg option \<Rightarrow> (string list \<Rightarrow> bytes_map) \<Rightarrow> (string \<Rightarrow> string list option)
   \<Rightarrow> (string list \<Rightarrow> bytes option) \<Rightarrow> string list \<Rightarrow> 'e error option \<Rightarrow> int
   \<Rightarrow> string \<Rightarrow> ('v \<Rightarrow> string \<Rightarrow> 'e error option \<times> 'v) \<Rightarrow> 'v \<Rightarrow> ('e, 'v) iter_out" where
  "Iter cfg fetch decode encode entries own_err since dir f v =
     (case cfg of
        None \<Rightarrow>
          \<lparr>io_result = fst (bkt_Iter entries own_err f v),
           io_visitor = snd (bkt_Iter entries own_err f v),
           io_calls = [CallIter dir], io_stores = []\<rparr>
      | Some c \<Rightarrow>
          let key = BucketCacheKey_String \<lparr>Verb = IterVerb, Name = dir, Start = 0, End = 0\<rparr>;
              data = fetch [key]
          in (case (case lookup data key of None \<Rightarrow> None | Some d \<Rightarrow> decode d) of
                Some list \<Rightarrow>
                  \<lparr>io_result = fst (replay f v list), io_visitor = snd (replay f v list),
                   io_calls = [], io_stores = []\<rparr>
              | None \<Rightarrow>
                  let r = bkt_Iter entries own_err (collecting f) ([], v);
                      err = fst r;
                      list = fst (snd r);
                      remainingTTL = wrap64 (i_ttl c - since)
                  in if err = None \<and> 0 < remainingTTL
                     then (case encode list of
                             Some d \<Rightarrow>
                               \<lparr>io_result = None, io_visitor = snd (snd r),
                                io_calls = [CallIter dir],
                                io_stores = [\<lparr>st_key = key, st_value = d, st_ttl = remainingTTL\<rparr>]\<rparr>
                           | None \<Rightarrow>
                               \<lparr>io_result = err, io_visitor = snd (snd r),
                                io_calls = [CallIter dir], io_stores = []\<rparr>)
                     else \<lparr>io_result = err, io_visitor = snd (snd r),
                           io_calls = [CallIter dir], io_stores = []\<rparr>))"

text \<open>The cached listing that \<^verbatim>\<open>Iter\<close> replays, if there is one that decodes.\<close>

definition cached_listing ::
  "(string list \<Rightarrow> bytes_map) \<Rightarrow> (string \<Rightarrow> string list option) \<Rightarrow> string \<Rightarrow> string list option" where
  "cached_listing fetch decode dir =
     (let key = BucketCacheKey_String \<lparr>Verb = IterVerb, Name = dir, Start = 0, End = 0\<rparr>
      in case lookup (fetch [key]) key of None \<Rightarrow> None | Some d \<Rightarrow> decode d)"

section \<open>Properties of the range merger\<close>

lemma wrap64_id: "- (2 ^ 63) \<le> x \<Longrightarrow> x < 2 ^ 63 \<Longrightarrow> wrap64 x = x"
proof -
  assume a: "- (2 ^ 63) \<le> x" "x < 2 ^ 63"
  have "0 \<le> x + 2 ^ 63" using a by simp
  moreover have "x + 2 ^ 63 < 2 ^ 64" using a by simp
  ultimately have "(x + 2 ^ 63) mod 2 ^ 64 = x + 2 ^ 63" by (rule mod_pos_pos_trivial)
  then show ?thesis unfolding wrap64_def by simp
qed

lemma merge_from_ne: "merge_from l xs t \<noteq> []"
  by (induction xs arbitrary: l) auto

lemma merge_from_hd: "rstart (hd (merge_from l xs t)) = rstart l"
  by (induction xs arbitrary: l) auto

lemma merge_from_apart: "apart t (merge_from l xs t)"
proof (induction xs arbitrary: l)
  case Nil
  then show ?case by simp
next
  case (Cons x xs)
  show ?case
  proof (cases "wrap64 (rstart x - rend l) \<le> t")
    case True
    then show ?thesis using Cons.IH by simp
  next
    case False
    obtain y ys where m: "merge_from x xs t = y # ys"
      using merge_from_ne by (cases "merge_from x xs t") auto
    have "rstart y = rstart x" using merge_from_hd [of x xs t] m by simp
    then show ?thesis using False Cons.IH [of x] m by simp
  qed
qed

lemma merge_from_fix: "apart t (l # xs) \<Longrightarrow> merge_from l xs t = l # xs"
proof (induction xs arbitrary: l)
  case Nil
  then show ?case by simp
next
  case (Cons x xs)
  then show ?case by (cases xs) auto
qed

lemma mergeRanges_idem: "mergeRanges (mergeRanges gs t) t = mergeRanges gs t"
proof (cases gs)
  case Nil
  then show ?thesis by (simp add: mergeRanges_def)
next
  case (Cons x xs)
  obtain y ys where m: "merge_from x xs t = y # ys"
    using merge_from_ne by (cases "merge_from x xs t") auto
  have "apart t (y # ys)" using merge_from_apart [of t x xs] m by simp
  then have "merge_from y ys t = y # ys" by (rule merge_from_fix)
  then show ?thesis using Cons m by (simp add: mergeRanges_def)
qed

lemma sorted_gaps_grow:
  "sorted_gaps (l # x # xs) \<Longrightarrow> sorted_gaps (l\<lparr>rend := rend x\<rparr> # xs)"
  by (cases xs) auto

lemma merge_from_sorted:
  "sorted_gaps (l # xs) \<Longrightarrow> sorted_gaps (merge_from l xs t)"
proof (induction xs arbitrary: l)
  case Nil
  then show ?case by simp
next
  case (Cons x xs)
  show ?case
  proof (cases "wrap64 (rstart x - rend l) \<le> t")
    case True
    have "sorted_gaps (l\<lparr>rend := rend x\<rparr> # xs)"
      using Cons.prems by (rule sorted_gaps_grow)
    then show ?thesis using True Cons.IH by simp
  next
    case False
    obtain y ys where m: "merge_from x xs t = y # ys"
      using merge_from_ne by (cases "merge_from x xs t") auto
    have y: "rstart y = rstart x" using merge_from_hd [of x xs t] m by simp
    have "sorted_gaps (x # xs)" using Cons.prems by simp
    then have "sorted_gaps (y # ys)" using Cons.IH [of x] m by simp
    then show ?thesis using False m y Cons.prems by simp
  qed
qed

lemma mergeRanges_sorted:
  "sorted_gaps gs \<Longrightarrow> sorted_gaps (mergeRanges gs t)"
  by (cases gs) (simp_all add: mergeRanges_def merge_from_sorted)

lemma gaps_within_Cons:
  "gaps_within lo hi (g # gs) = (lo \<le> rstart g \<and> rend g \<le> hi \<and> gaps_within lo hi gs)"
  by (simp add: gaps_within_def)

lemma gaps_within_Nil: "gaps_within lo hi []"
  by (simp add: gaps_within_def)

lemma merge_from_within:
  "gaps_within lo hi (l # xs) \<Longrightarrow> gaps_within lo hi (merge_from l xs t)"
proof (induction xs arbitrary: l)
  case Nil
  then show ?case by simp
next
  case (Cons x xs)
  show ?case
  proof (cases "wrap64 (rstart x - rend l) \<le> t")
    case True
    have "gaps_within lo hi (l\<lparr>rend := rend x\<rparr> # xs)"
      using Cons.prems by (simp add: gaps_within_Cons)
    then have "gaps_within lo hi (merge_from (l\<lparr>rend := rend x\<rparr>) xs t)"
      by (rule Cons.IH)
    then show ?thesis using True by simp
  next
    case False
    have "gaps_within lo hi (x # xs)" using Cons.prems by (simp add: gaps_within_Cons)
    then have "gaps_within lo hi (merge_from x xs t)" by (rule Cons.IH)
    then show ?thesis using False Cons.prems by (simp add: gaps_within_Cons)
  qed
qed

lemma mergeRanges_within:
  "gaps_within lo hi gs \<Longrightarrow> gaps_within lo hi (mergeRanges gs t)"
  by (cases gs) (simp_all add: mergeRanges_def merge_from_within)

text \<open>For sorted byte intervals below \<open>2 ^ 63\<close> the computed lengths are the true lengths.\<close>

lemma total_len_plain:
  "sorted_gaps gs \<Longrightarrow> gaps_within 0 (2 ^ 63 - 1) gs \<Longrightarrow>
   total_len gs = sum_list (map (\<lambda>g. rend g - rstart g) gs)"
proof (induction gs rule: sorted_gaps.induct)
  case 1
  then show ?case by (simp add: total_len_def)
next
  case (2 x)
  then have "wrap64 (rend x - rstart x) = rend x - rstart x"
    by (intro wrap64_id) (simp_all add: gaps_within_Cons)
  then show ?case by (simp add: total_len_def)
next
  case (3 x y ys)
  then have "wrap64 (rend x - rstart x) = rend x - rstart x"
    by (intro wrap64_id) (simp_all add: gaps_within_Cons)
  moreover have "total_len (y # ys) = sum_list (map (\<lambda>g. rend g - rstart g) (y # ys))"
    using 3 by (simp add: gaps_within_Cons)
  ultimately show ?case by (simp add: total_len_def)
qed

lemma merge_from_covers:
  "sorted_gaps (l # xs) \<Longrightarrow>
   sum_list (map (\<lambda>g. rend g - rstart g) (l # xs))
     \<le> sum_list (map (\<lambda>g. rend g - rstart g) (merge_from l xs t))"
proof (induction xs arbitrary: l)
  case Nil
  then show ?case by simp
next
  case (Cons x xs)
  show ?case
  proof (cases "wrap64 (rstart x - rend l) \<le> t")
    case True
    have s: "sorted_gaps (l\<lparr>rend := rend x\<rparr> # xs)"
      using Cons.prems by (rule sorted_gaps_grow)
    have "sum_list (map (\<lambda>g. rend g - rstart g) (l # x # xs))
            \<le> sum_list (map (\<lambda>g. rend g - rstart g) (l\<lparr>rend := rend x\<rparr> # xs))"
      using Cons.prems by simp
    also have "\<dots> \<le> sum_list (map (\<lambda>g. rend g - rstart g) (merge_from (l\<lparr>rend := rend x\<rparr>) xs t))"
      using Cons.IH [OF s] .
    finally show ?thesis using True by simp
  next
    case False
    have "sorted_gaps (x # xs)" using Cons.prems by simp
    then have "sum_list (map (\<lambda>g. rend g - rstart g) (x # xs))
                 \<le> sum_list (map (\<lambda>g. rend g - rstart g) (merge_from x xs t))"
      by (rule Cons.IH)
    then show ?thesis using False by simp
  qed
qed

text \<open>
  Claim C4. For a list of gaps that is sorted by start and non-overlapping (byte intervals,
  so offsets from 0 to the largest \<^verbatim>\<open>int64\<close>) and a tolerance \<open>t \<ge> 0\<close>, merging is
  idempotent, and the merged list is again sorted and non-overlapping and covers at least
  as many bytes as the input.
\<close>

theorem mergeRanges_idempotent_sorted_covering:
  assumes "sorted_gaps gaps" and "0 \<le> t" and "gaps_within 0 (2 ^ 63 - 1) gaps"
  shows "mergeRanges (mergeRanges gaps t) t = mergeRanges gaps t
       \<and> sorted_gaps (mergeRanges gaps t)
       \<and> total_len gaps \<le> total_len (mergeRanges gaps t)"
proof -
  have s: "sorted_gaps (mergeRanges gaps t)" using assms(1) by (rule mergeRanges_sorted)
  have w: "gaps_within 0 (2 ^ 63 - 1) (mergeRanges gaps t)"
    using assms(3) by (rule mergeRanges_within)
  have "sum_list (map (\<lambda>g. rend g - rstart g) gaps)
          \<le> sum_list (map (\<lambda>g. rend g - rstart g) (mergeRanges gaps t))"
  proof (cases gaps)
    case Nil
    then show ?thesis by (simp add: mergeRanges_def)
  next
    case (Cons x xs)
    then show ?thesis using assms(1) merge_from_covers [of x xs t] by (simp add: mergeRanges_def)
  qed
  then have "total_len gaps \<le> total_len (mergeRanges gaps t)"
    using total_len_plain [OF assms(1,3)] total_len_plain [OF s w] by simp
  then show ?thesis using s mergeRanges_idem [of gaps t] by simp
qed

theorem mergeRanges_idempotent_sorted_covering_witness:
  "mergeRanges (mergeRanges [\<lparr>rstart = 0, rend = 10\<rparr>, \<lparr>rstart = 12, rend = 20\<rparr>, \<lparr>rstart = 50, rend = 60\<rparr>] 5) 5
     = mergeRanges [\<lparr>rstart = 0, rend = 10\<rparr>, \<lparr>rstart = 12, rend = 20\<rparr>, \<lparr>rstart = 50, rend = 60\<rparr>] 5
   \<and> sorted_gaps (mergeRanges [\<lparr>rstart = 0, rend = 10\<rparr>, \<lparr>rstart = 12, rend = 20\<rparr>, \<lparr>rstart = 50, rend = 60\<rparr>] 5)
   \<and> total_len [\<lparr>rstart = 0, rend = 10\<rparr>, \<lparr>rstart = 12, rend = 20\<rparr>, \<lparr>rstart = 50, rend = 60\<rparr>]
       \<le> total_len (mergeRanges [\<lparr>rstart = 0, rend = 10\<rparr>, \<lparr>rstart = 12, rend = 20\<rparr>, \<lparr>rstart = 50, rend = 60\<rparr>] 5)"
proof -
  have h1: "sorted_gaps [\<lparr>rstart = 0, rend = 10\<rparr>, \<lparr>rstart = 12, rend = 20\<rparr>, \<lparr>rstart = 50, rend = 60\<rparr>]"
    by simp
  have h2: "(0::int) \<le> 5" by simp
  have h3: "gaps_within 0 (2 ^ 63 - 1)
              [\<lparr>rstart = 0, rend = 10\<rparr>, \<lparr>rstart = 12, rend = 20\<rparr>, \<lparr>rstart = 50, rend = 60\<rparr>]"
    by (simp add: gaps_within_Cons gaps_within_Nil)
  show ?thesis by (rule mergeRanges_idempotent_sorted_covering [OF h1 h2 h3])
qed

subsection \<open>The merge loop terminates within the fan-out budget\<close>






declare dec_digits.simps [simp del]

lemma of_char_digit_char: "d < 10 \<Longrightarrow> (of_char (digit_char d) :: nat) = 48 + d"
  by (simp add: digit_char_def)

lemma is_digit_digit_char: "d < 10 \<Longrightarrow> is_digit (digit_char d)"
  by (simp add: is_digit_def of_char_digit_char)

lemma digits_value_snoc:
  "digits_value (ds @ [c]) = digits_value ds * 10 + (of_char c - 48)"
  by (simp add: digits_value_def)

lemma digits_value_digit_char: "d < 10 \<Longrightarrow> (of_char (digit_char d) :: int) - 48 = int d"
proof -
  assume d: "d < 10"
  have "(of_char (digit_char d) :: int) = int (of_char (digit_char d))"
    by (rule of_nat_of_char [symmetric])
  then show ?thesis using of_char_digit_char [OF d] by simp
qed

lemma dec_digits_props:
  "dec_digits n \<noteq> [] \<and> list_all is_digit (dec_digits n) \<and> digits_value (dec_digits n) = int n"
proof (induction n rule: dec_digits.induct)
  case (1 n)
  show ?case
  proof (cases "n < 10")
    case True
    then have "dec_digits n = [digit_char n]" by (subst dec_digits.simps) simp
    then show ?thesis
      using True is_digit_digit_char [OF True] digits_value_digit_char [OF True]
      by (simp add: digits_value_def)
  next
    case False
    then have e: "dec_digits n = dec_digits (n div 10) @ [digit_char (n mod 10)]"
      by (subst dec_digits.simps) simp
    have m: "n mod 10 < 10" by simp
    have "digits_value (dec_digits n) = int (n div 10) * 10 + int (n mod 10)"
      using "1.IH" [OF False] digits_value_digit_char [OF m] by (simp add: e digits_value_snoc)
    also have "\<dots> = int n" by (simp add: zdiv_int zmod_int)
    finally show ?thesis
      using "1.IH" [OF False] is_digit_digit_char [OF m] by (simp add: e)
  qed
qed

lemma is_digit_not_special:
  "is_digit c \<Longrightarrow> c \<noteq> CHR '':'' \<and> c \<noteq> CHR ''+'' \<and> c \<noteq> CHR ''-''"
  by (auto simp: is_digit_def)

lemma dec_digits_hd: "is_digit (hd (dec_digits n))"
proof -
  have "dec_digits n \<noteq> []" "list_all is_digit (dec_digits n)"
    using dec_digits_props [of n] by simp_all
  then show ?thesis by (cases "dec_digits n") simp_all
qed

lemma dec_digits_no_colon: "CHR '':'' \<notin> set (dec_digits n)"
proof
  assume "CHR '':'' \<in> set (dec_digits n)"
  moreover have "list_all is_digit (dec_digits n)" using dec_digits_props [of n] by simp
  ultimately have "is_digit CHR '':''" by (simp add: list_all_iff)
  then show False by (simp add: is_digit_def)
qed

lemma format_int_no_colon: "CHR '':'' \<notin> set (format_int i)"
  using dec_digits_no_colon by (simp add: format_int_def)

lemma ParseInt_format_int:
  assumes "int64_range i"
  shows "ParseInt (format_int i) = Some i"
proof (cases "i < 0")
  case True
  let ?ds = "dec_digits (nat (- i))"
  have p: "?ds \<noteq> []" "list_all is_digit ?ds" "digits_value ?ds = - i"
    using dec_digits_props [of "nat (- i)"] True by simp_all
  have r: "\<not> 2 ^ 63 < - i" using assms by (simp add: int64_range_def)
  show ?thesis
    using True p r by (simp add: ParseInt_def format_int_def Let_def)
next
  case False
  let ?ds = "dec_digits (nat i)"
  have p: "?ds \<noteq> []" "list_all is_digit ?ds" "digits_value ?ds = i"
    using dec_digits_props [of "nat i"] False by simp_all
  have h: "hd ?ds \<noteq> CHR ''+''" "hd ?ds \<noteq> CHR ''-''"
    using is_digit_not_special [OF dec_digits_hd [of "nat i"]] by simp_all
  have r: "\<not> 2 ^ 63 \<le> i" using assms by (simp add: int64_range_def)
  show ?thesis
    using False p h r by (simp add: ParseInt_def format_int_def Let_def)
qed

lemma split_colon_ne: "split_colon s \<noteq> []"
  by (induction s) (auto split: list.splits)

lemma split_colon_none: "CHR '':'' \<notin> set a \<Longrightarrow> split_colon a = [a]"
  by (induction a) auto

lemma split_colon_append:
  "CHR '':'' \<notin> set a \<Longrightarrow> split_colon (a @ CHR '':'' # b) = a # split_colon b"
  by (induction a) auto

lemma valid_verb_no_colon: "IsValidVerb v \<Longrightarrow> CHR '':'' \<notin> set v"
  by (auto simp: IsValidVerb_def ExistsVerb_def ContentVerb_def IterVerb_def
      AttributesVerb_def SubrangeVerb_def)


lemma String_plain:
  "Start ck = 0 \<and> End ck = 0 \<Longrightarrow> BucketCacheKey_String ck = Verb ck @ CHR '':'' # Name ck"
  by (simp add: BucketCacheKey_String_def)

lemma String_ranged:
  "\<not> (Start ck = 0 \<and> End ck = 0) \<Longrightarrow>
   BucketCacheKey_String ck =
     Verb ck @ CHR '':'' # Name ck @ CHR '':'' # format_int (Start ck) @ CHR '':'' # format_int (End ck)"
  by (simp add: BucketCacheKey_String_def)

lemma split_plain:
  assumes "CHR '':'' \<notin> set v" and "CHR '':'' \<notin> set n"
  shows "split_colon (v @ CHR '':'' # n) = [v, n]"
  using assms by (simp add: split_colon_append split_colon_none)

lemma split_ranged:
  assumes "CHR '':'' \<notin> set v" and "CHR '':'' \<notin> set n"
  shows "split_colon (v @ CHR '':'' # n @ CHR '':'' # format_int a @ CHR '':'' # format_int b)
           = [v, n, format_int a, format_int b]"
  using assms format_int_no_colon by (simp add: split_colon_append split_colon_none)

text \<open>
  Claim C2, as amended. A key whose verb is one of the five, whose name holds no colon,
  whose bounds are \<^verbatim>\<open>int64\<close> values, and whose bounds are both zero exactly when the verb is
  not \<^verbatim>\<open>subrange\<close>, is decoded from its encoding unchanged.
\<close>

theorem key_roundtrip:
  assumes "IsValidVerb (Verb ck)" and "CHR '':'' \<notin> set (Name ck)"
    and "int64_range (Start ck)" and "int64_range (End ck)"
    and "(Verb ck = SubrangeVerb) = (\<not> (Start ck = 0 \<and> End ck = 0))"
  shows "ParseBucketCacheKey (BucketCacheKey_String ck) = Inr ck"
proof (cases "Start ck = 0 \<and> End ck = 0")
  case True
  have v: "CHR '':'' \<notin> set (Verb ck)" using assms(1) by (rule valid_verb_no_colon)
  have sp: "split_colon (BucketCacheKey_String ck) = [Verb ck, Name ck]"
    using String_plain [OF True] split_plain [OF v assms(2)] by simp
  have "Verb ck \<noteq> SubrangeVerb" using assms(5) True by simp
  then show ?thesis
    using assms(1) True by (simp add: ParseBucketCacheKey_def sp)
next
  case False
  have v: "CHR '':'' \<notin> set (Verb ck)" using assms(1) by (rule valid_verb_no_colon)
  have sp: "split_colon (BucketCacheKey_String ck)
              = [Verb ck, Name ck, format_int (Start ck), format_int (End ck)]"
    using String_ranged [OF False] split_ranged [OF v assms(2)] by simp
  have "Verb ck = SubrangeVerb" using assms(5) False by simp
  then show ?thesis
    using assms(1) ParseInt_format_int [OF assms(3)] ParseInt_format_int [OF assms(4)]
    by (simp add: ParseBucketCacheKey_def sp)
qed

theorem key_roundtrip_witness:
  "ParseBucketCacheKey
     (BucketCacheKey_String \<lparr>Verb = ''subrange'', Name = ''obj'', Start = 1000, End = 2000\<rparr>)
   = Inr \<lparr>Verb = ''subrange'', Name = ''obj'', Start = 1000, End = 2000\<rparr>"
  using key_roundtrip [of "\<lparr>Verb = ''subrange'', Name = ''obj'', Start = 1000, End = 2000\<rparr>"]
  by (simp add: IsValidVerb_def SubrangeVerb_def int64_range_def)

theorem key_roundtrip_counterexample:
  "IsValidVerb ''exists'' \<and> IsValidVerb ''subrange''
   \<and> ParseBucketCacheKey
       (BucketCacheKey_String \<lparr>Verb = ''exists'', Name = ''a:b'', Start = 0, End = 0\<rparr>)
     = Inl ErrInvalidBucketCacheKeyFormat
   \<and> ParseBucketCacheKey
       (BucketCacheKey_String \<lparr>Verb = ''subrange'', Name = ''obj'', Start = 0, End = 0\<rparr>)
     = Inl ErrInvalidBucketCacheKeyFormat
   \<and> ParseBucketCacheKey
       (BucketCacheKey_String \<lparr>Verb = ''exists'', Name = ''obj'', Start = 0, End = 7\<rparr>)
     = Inl ErrInvalidBucketCacheKeyFormat"
  by (simp add: ParseBucketCacheKey_def BucketCacheKey_String_def IsValidVerb_def
      ExistsVerb_def ContentVerb_def IterVerb_def AttributesVerb_def SubrangeVerb_def
      format_int_def dec_digits.simps [of 0] dec_digits.simps [of 7] digit_char_def)

text \<open>
  Claim C6. The checks of \<^verbatim>\<open>ParseBucketCacheKey\<close> in their order: fewer than two fields
  (the empty string has one) is a format error; then an unknown verb is a verb error; then
  a \<^verbatim>\<open>subrange\<close> key without exactly four fields, or another key without exactly two, is a
  format error; then a start or end field of a \<^verbatim>\<open>subrange\<close> key that is no integer is a
  parse error.
\<close>

theorem parse_key_errors:
  "ParseBucketCacheKey [] = Inl ErrInvalidBucketCacheKeyFormat
   \<and> (length (split_colon key) < 2 \<longrightarrow>
        ParseBucketCacheKey key = Inl ErrInvalidBucketCacheKeyFormat)
   \<and> (2 \<le> length (split_colon key) \<and> \<not> IsValidVerb (split_colon key ! 0) \<longrightarrow>
        ParseBucketCacheKey key = Inl ErrInvalidBucketCacheKeyVerb)
   \<and> (2 \<le> length (split_colon key) \<and> split_colon key ! 0 = SubrangeVerb
        \<and> length (split_colon key) \<noteq> 4 \<longrightarrow>
        ParseBucketCacheKey key = Inl ErrInvalidBucketCacheKeyFormat)
   \<and> (2 \<le> length (split_colon key) \<and> IsValidVerb (split_colon key ! 0)
        \<and> split_colon key ! 0 \<noteq> SubrangeVerb \<and> length (split_colon key) \<noteq> 2 \<longrightarrow>
        ParseBucketCacheKey key = Inl ErrInvalidBucketCacheKeyFormat)
   \<and> (length (split_colon key) = 4 \<and> split_colon key ! 0 = SubrangeVerb
        \<and> (ParseInt (split_colon key ! 2) = None \<or> ParseInt (split_colon key ! 3) = None) \<longrightarrow>
        ParseBucketCacheKey key = Inl ErrParseKeyInt)"
proof (intro conjI impI)
  show "ParseBucketCacheKey [] = Inl ErrInvalidBucketCacheKeyFormat"
    by (simp add: ParseBucketCacheKey_def)
next
  assume "length (split_colon key) < 2"
  then show "ParseBucketCacheKey key = Inl ErrInvalidBucketCacheKeyFormat"
    by (simp add: ParseBucketCacheKey_def)
next
  assume "2 \<le> length (split_colon key) \<and> \<not> IsValidVerb (split_colon key ! 0)"
  then show "ParseBucketCacheKey key = Inl ErrInvalidBucketCacheKeyVerb"
    by (simp add: ParseBucketCacheKey_def Let_def)
next
  assume a: "2 \<le> length (split_colon key) \<and> split_colon key ! 0 = SubrangeVerb
               \<and> length (split_colon key) \<noteq> 4"
  then have "IsValidVerb (split_colon key ! 0)" by (simp add: IsValidVerb_def)
  then show "ParseBucketCacheKey key = Inl ErrInvalidBucketCacheKeyFormat"
    using a by (simp add: ParseBucketCacheKey_def Let_def)
next
  assume "2 \<le> length (split_colon key) \<and> IsValidVerb (split_colon key ! 0)
            \<and> split_colon key ! 0 \<noteq> SubrangeVerb \<and> length (split_colon key) \<noteq> 2"
  then show "ParseBucketCacheKey key = Inl ErrInvalidBucketCacheKeyFormat"
    by (simp add: ParseBucketCacheKey_def Let_def)
next
  assume a: "length (split_colon key) = 4 \<and> split_colon key ! 0 = SubrangeVerb
               \<and> (ParseInt (split_colon key ! 2) = None \<or> ParseInt (split_colon key ! 3) = None)"
  then have v: "IsValidVerb (split_colon key ! 0)" by (simp add: IsValidVerb_def)
  from a have "ParseInt (split_colon key ! 2) = None \<or> ParseInt (split_colon key ! 3) = None"
    by simp
  then show "ParseBucketCacheKey key = Inl ErrParseKeyInt"
  proof
    assume "ParseInt (split_colon key ! 2) = None"
    then show ?thesis using a v by (simp add: ParseBucketCacheKey_def Let_def)
  next
    assume "ParseInt (split_colon key ! 3) = None"
    then show ?thesis using a v
      by (simp add: ParseBucketCacheKey_def Let_def split: option.split)
  qed
qed

theorem parse_key_errors_witness:
  "ParseBucketCacheKey ''exists'' = Inl ErrInvalidBucketCacheKeyFormat
   \<and> ParseBucketCacheKey ''get:obj'' = Inl ErrInvalidBucketCacheKeyVerb
   \<and> ParseBucketCacheKey ''subrange:obj:10'' = Inl ErrInvalidBucketCacheKeyFormat
   \<and> ParseBucketCacheKey ''attrs:obj:10:20'' = Inl ErrInvalidBucketCacheKeyFormat
   \<and> ParseBucketCacheKey ''subrange:obj:10:2x'' = Inl ErrParseKeyInt"
proof -
  have a: "length (split_colon ''exists'') < 2" by simp
  have b: "2 \<le> length (split_colon ''get:obj'') \<and> \<not> IsValidVerb (split_colon ''get:obj'' ! 0)"
    by (simp add: IsValidVerb_def ExistsVerb_def ContentVerb_def IterVerb_def
        AttributesVerb_def SubrangeVerb_def)
  have c: "2 \<le> length (split_colon ''subrange:obj:10'')
           \<and> split_colon ''subrange:obj:10'' ! 0 = SubrangeVerb
           \<and> length (split_colon ''subrange:obj:10'') \<noteq> 4"
    by (simp add: SubrangeVerb_def)
  have d: "2 \<le> length (split_colon ''attrs:obj:10:20'')
           \<and> IsValidVerb (split_colon ''attrs:obj:10:20'' ! 0)
           \<and> split_colon ''attrs:obj:10:20'' ! 0 \<noteq> SubrangeVerb
           \<and> length (split_colon ''attrs:obj:10:20'') \<noteq> 2"
    by (simp add: IsValidVerb_def AttributesVerb_def SubrangeVerb_def)
  have e: "length (split_colon ''subrange:obj:10:2x'') = 4
           \<and> split_colon ''subrange:obj:10:2x'' ! 0 = SubrangeVerb
           \<and> (ParseInt (split_colon ''subrange:obj:10:2x'' ! 2) = None
                \<or> ParseInt (split_colon ''subrange:obj:10:2x'' ! 3) = None)"
    by (simp add: SubrangeVerb_def ParseInt_def is_digit_def)
  note r1 = parse_key_errors [of "''exists''", THEN conjunct2, THEN conjunct1, THEN mp, OF a]
  note r2 = parse_key_errors [of "''get:obj''", THEN conjunct2, THEN conjunct2, THEN conjunct1,
      THEN mp, OF b]
  note r3 = parse_key_errors [of "''subrange:obj:10''", THEN conjunct2, THEN conjunct2,
      THEN conjunct2, THEN conjunct1, THEN mp, OF c]
  note r4 = parse_key_errors [of "''attrs:obj:10:20''", THEN conjunct2, THEN conjunct2,
      THEN conjunct2, THEN conjunct2, THEN conjunct1, THEN mp, OF d]
  note r5 = parse_key_errors [of "''subrange:obj:10:2x''", THEN conjunct2, THEN conjunct2,
      THEN conjunct2, THEN conjunct2, THEN conjunct2, THEN mp, OF e]
  show ?thesis using r1 r2 r3 r4 r5 by (intro conjI)
qed

section \<open>The existence short-circuit of \<^verbatim>\<open>Get\<close>\<close>

text \<open>
  Claim C7. With a matching config, no cached content entry and a cached \<^verbatim>\<open>exists\<close> entry
  that parses to false, \<^verbatim>\<open>Get\<close> returns the not-found error, which the layer's own
  \<^verbatim>\<open>IsObjNotFoundErr\<close> recognises, and calls the underlying store not at all.
\<close>

theorem Get_known_absent:
  assumes "cfg = Some c"
    and "lookup (fetch [BucketCacheKey_String \<lparr>Verb = ContentVerb, Name = name, Start = 0, End = 0\<rparr>,
                        BucketCacheKey_String \<lparr>Verb = ExistsVerb, Name = name, Start = 0, End = 0\<rparr>])
           (BucketCacheKey_String \<lparr>Verb = ContentVerb, Name = name, Start = 0, End = 0\<rparr>) = None"
    and "lookup (fetch [BucketCacheKey_String \<lparr>Verb = ContentVerb, Name = name, Start = 0, End = 0\<rparr>,
                        BucketCacheKey_String \<lparr>Verb = ExistsVerb, Name = name, Start = 0, End = 0\<rparr>])
           (BucketCacheKey_String \<lparr>Verb = ExistsVerb, Name = name, Start = 0, End = 0\<rparr>) = Some ex"
    and "ParseBool ex = Some False"
  shows "go_result (Get cfg fetch bkt_Get bkt_IsObjNotFoundErr since name) = Inl ErrObjNotFound
       \<and> IsObjNotFoundErr bkt_IsObjNotFoundErr ErrObjNotFound
       \<and> go_calls (Get cfg fetch bkt_Get bkt_IsObjNotFoundErr since name) = []
       \<and> go_stores (Get cfg fetch bkt_Get bkt_IsObjNotFoundErr since name) = []"
  using assms by (simp add: Get_def Let_def IsObjNotFoundErr_def)

theorem Get_known_absent_witness:
  "go_result (Get (Some \<lparr>g_existsTTL = 60, g_doesntExistTTL = 30, g_contentTTL = 60,
                          g_maxCacheableSize = 100\<rparr>)
               (\<lambda>ks. [''exists:obj/deletion-mark.json'' \<mapsto> Some ''false''])
               (\<lambda>n. Inr (0::nat)) (\<lambda>e::unit error. False) 0 ''obj/deletion-mark.json'')
     = Inl ErrObjNotFound
   \<and> go_calls (Get (Some \<lparr>g_existsTTL = 60, g_doesntExistTTL = 30, g_contentTTL = 60,
                          g_maxCacheableSize = 100\<rparr>)
               (\<lambda>ks. [''exists:obj/deletion-mark.json'' \<mapsto> Some ''false''])
               (\<lambda>n. Inr (0::nat)) (\<lambda>e::unit error. False) 0 ''obj/deletion-mark.json'')
     = []"
proof -
  let ?c = "\<lparr>g_existsTTL = 60, g_doesntExistTTL = 30, g_contentTTL = 60, g_maxCacheableSize = 100\<rparr>"
  let ?fetch = "\<lambda>ks :: string list. [''exists:obj/deletion-mark.json'' \<mapsto> Some ''false'']"
  have h1: "Some ?c = Some ?c" by simp
  have h2: "lookup (?fetch [BucketCacheKey_String \<lparr>Verb = ContentVerb, Name = ''obj/deletion-mark.json'', Start = 0, End = 0\<rparr>,
                        BucketCacheKey_String \<lparr>Verb = ExistsVerb, Name = ''obj/deletion-mark.json'', Start = 0, End = 0\<rparr>])
           (BucketCacheKey_String \<lparr>Verb = ContentVerb, Name = ''obj/deletion-mark.json'', Start = 0, End = 0\<rparr>) = None"
    by (simp add: lookup_def BucketCacheKey_String_def ContentVerb_def)
  have h3: "lookup (?fetch [BucketCacheKey_String \<lparr>Verb = ContentVerb, Name = ''obj/deletion-mark.json'', Start = 0, End = 0\<rparr>,
                        BucketCacheKey_String \<lparr>Verb = ExistsVerb, Name = ''obj/deletion-mark.json'', Start = 0, End = 0\<rparr>])
           (BucketCacheKey_String \<lparr>Verb = ExistsVerb, Name = ''obj/deletion-mark.json'', Start = 0, End = 0\<rparr>) = Some ''false''"
    by (simp add: lookup_def BucketCacheKey_String_def ExistsVerb_def)
  have h4: "ParseBool ''false'' = Some False" by (simp add: ParseBool_def)
  note t = Get_known_absent [OF h1 h2 h3 h4, of "\<lambda>n. Inr (0::nat)" "\<lambda>e::unit error. False" 0]
  show ?thesis
    using t [THEN conjunct1] t [THEN conjunct2, THEN conjunct2, THEN conjunct1]
    by (intro conjI)
qed

section \<open>The capturing reader stores a fully read object only\<close>

lemma gr_Read_consts:
  "gr_ttl (fst (gr_Read g data err since)) = gr_ttl g
   \<and> gr_cacheKey (fst (gr_Read g data err since)) = gr_cacheKey g
   \<and> gr_maxSize (fst (gr_Read g data err since)) = gr_maxSize g"
  by (simp add: gr_Read_def Let_def split: option.split)

lemma gr_run_snoc_read:
  "gr_run g (evs @ [EvRead data err since]) =
     (fst (gr_Read (fst (gr_run g evs)) data err since),
      snd (gr_run g evs) @ fst (snd (gr_Read (fst (gr_run g evs)) data err since)))"
proof (induction evs arbitrary: g)
  case Nil
  then show ?case by simp
next
  case (Cons e evs)
  show ?case
  proof (cases e)
    case (EvRead d r s)
    then show ?thesis using Cons.IH by simp
  next
    case EvClose
    then show ?thesis using Cons.IH by simp
  qed
qed

lemma gr_run_snoc_close:
  "gr_run g (evs @ [EvClose]) = (gr_Close (fst (gr_run g evs)), snd (gr_run g evs))"
proof (induction evs arbitrary: g)
  case Nil
  then show ?case by simp
next
  case (Cons e evs)
  show ?case
  proof (cases e)
    case (EvRead d r s)
    then show ?thesis using Cons.IH by simp
  next
    case EvClose
    then show ?thesis using Cons.IH by simp
  qed
qed

lemma read_bytes_snoc_read: "read_bytes (evs @ [EvRead data err since]) = read_bytes evs @ data"
  by (induction evs rule: read_bytes.induct) simp_all

lemma read_bytes_snoc_close: "read_bytes (evs @ [EvClose]) = read_bytes evs"
  by (induction evs rule: read_bytes.induct) simp_all

lemma closed_or_ended_snoc_read:
  "closed_or_ended (evs @ [EvRead data err since]) = (closed_or_ended evs \<or> err = REOF)"
  by (induction evs rule: closed_or_ended.induct) auto

lemma closed_or_ended_snoc_close: "closed_or_ended (evs @ [EvClose])"
  by (induction evs rule: closed_or_ended.induct) auto

lemma gr_run_consts:
  "gr_ttl (fst (gr_run g evs)) = gr_ttl g
   \<and> gr_cacheKey (fst (gr_run g evs)) = gr_cacheKey g
   \<and> gr_maxSize (fst (gr_run g evs)) = gr_maxSize g"
proof (induction evs rule: rev_induct)
  case Nil
  then show ?case by simp
next
  case (snoc e evs)
  show ?case
  proof (cases e)
    case (EvRead d r s)
    then show ?thesis
      using snoc gr_Read_consts [of "fst (gr_run g evs)" d r s]
      by (simp add: gr_run_snoc_read)
  next
    case EvClose
    then show ?thesis using snoc by (simp add: gr_run_snoc_close gr_Close_def)
  qed
qed


lemma gr_Read_buf:
  "gr_buf (fst (gr_Read g d r s)) =
     (case gr_buf g of
        None \<Rightarrow> None
      | Some b \<Rightarrow>
          if d \<noteq> [] \<and> \<not> wrap64 (int (length b) + int (length d)) \<le> gr_maxSize g then None
          else if r = REOF then None
          else Some (b @ d))"
  by (simp add: gr_Read_def Let_def split: option.split)

lemma gr_Read_stores:
  "fst (snd (gr_Read g d r s)) =
     (case gr_buf g of
        None \<Rightarrow> []
      | Some b \<Rightarrow>
          if r = REOF \<and> (d = [] \<or> wrap64 (int (length b) + int (length d)) \<le> gr_maxSize g)
             \<and> 0 < wrap64 (gr_ttl g - s)
          then [\<lparr>st_key = gr_cacheKey g, st_value = buffer_bytes (b @ d),
                 st_ttl = wrap64 (gr_ttl g - s)\<rparr>]
          else [])"
  by (simp add: gr_Read_def Let_def split: option.split)

lemma gr_Read_returns: "snd (snd (gr_Read g d r s)) = (length d, r)"
  by (simp add: gr_Read_def Let_def split: option.split)

lemma wrap64_length:
  "int (length (b @ d)) < 2 ^ 63 \<Longrightarrow> wrap64 (int (length b) + int (length d)) = int (length (b @ d))"
  by (simp add: wrap64_id)

lemma gr_run_buf:
  assumes "gr_buf g = Some []" and "int (length (read_bytes evs)) < 2 ^ 63"
  shows "gr_buf (fst (gr_run g evs)) =
           (if \<not> closed_or_ended evs
               \<and> (read_bytes evs = [] \<or> int (length (read_bytes evs)) \<le> gr_maxSize g)
            then Some (read_bytes evs) else None)"
  using assms(2)
proof (induction evs rule: rev_induct)
  case Nil
  then show ?case using assms(1) by simp
next
  case (snoc e evs)
  show ?case
  proof (cases e)
    case EvClose
    then show ?thesis
      by (simp add: gr_run_snoc_close gr_Close_def closed_or_ended_snoc_close)
  next
    case (EvRead d r s)
    let ?g = "fst (gr_run g evs)"
    let ?b = "read_bytes evs"
    have len: "int (length (?b @ d)) < 2 ^ 63"
      using snoc.prems EvRead by (simp add: read_bytes_snoc_read)
    then have "int (length ?b) < 2 ^ 63" by simp
    then have ih: "gr_buf ?g =
        (if \<not> closed_or_ended evs \<and> (?b = [] \<or> int (length ?b) \<le> gr_maxSize g)
         then Some ?b else None)"
      by (rule snoc.IH)
    have ms: "gr_maxSize ?g = gr_maxSize g" using gr_run_consts [of g evs] by simp
    have w: "wrap64 (int (length ?b) + int (length d)) = int (length (?b @ d))"
      using len by (rule wrap64_length)
    show ?thesis
    proof (cases "gr_buf ?g")
      case None
      then have "closed_or_ended evs \<or> (?b \<noteq> [] \<and> \<not> int (length ?b) \<le> gr_maxSize g)"
        using ih by (simp split: if_splits)
      then show ?thesis
        using None EvRead
        by (auto simp: gr_run_snoc_read gr_Read_buf closed_or_ended_snoc_read read_bytes_snoc_read)
    next
      case (Some b)
      then have b: "b = ?b" "\<not> closed_or_ended evs" "?b = [] \<or> int (length ?b) \<le> gr_maxSize g"
        using ih by (simp_all split: if_splits)
      show ?thesis
        using Some b EvRead w ms
        by (auto simp: gr_run_snoc_read gr_Read_buf closed_or_ended_snoc_read read_bytes_snoc_read)
    qed
  qed
qed

text \<open>
  Claim C8, as amended. A fresh capturing reader stores the content entry at a \<^verbatim>\<open>Read\<close> if
  and only if that \<^verbatim>\<open>Read\<close> reaches the end of the stream, no \<^verbatim>\<open>Close\<close> and no earlier end of
  stream came before it, the bytes read so far fit the cap, and the remaining TTL (the
  content TTL minus the time since the start) is positive. The entry stored is the
  concatenation of all bytes read, under the content key, with the remaining TTL. Every
  \<^verbatim>\<open>Read\<close> returns what the wrapped reader returned, and a \<^verbatim>\<open>Close\<close> stores nothing.
\<close>

theorem getReader_stores_complete_object:
  assumes "gr_buf g = Some []"
    and "int (length (read_bytes evs @ data)) < 2 ^ 63"
    and "int64_range (gr_ttl g - since)"
  shows "(fst (snd (gr_Read (fst (gr_run g evs)) data err since)) \<noteq> [] \<longleftrightarrow>
            err = REOF \<and> \<not> closed_or_ended evs
            \<and> (read_bytes evs @ data = []
                \<or> int (length (read_bytes evs @ data)) \<le> gr_maxSize g)
            \<and> 0 < gr_ttl g - since)
       \<and> (fst (snd (gr_Read (fst (gr_run g evs)) data err since)) \<noteq> [] \<longrightarrow>
            fst (snd (gr_Read (fst (gr_run g evs)) data err since))
              = [\<lparr>st_key = gr_cacheKey g, st_value = buffer_bytes (read_bytes evs @ data),
                  st_ttl = gr_ttl g - since\<rparr>])
       \<and> snd (snd (gr_Read (fst (gr_run g evs)) data err since)) = (length data, err)
       \<and> snd (gr_run g (evs @ [EvRead data err since]))
           = snd (gr_run g evs) @ fst (snd (gr_Read (fst (gr_run g evs)) data err since))
       \<and> snd (gr_run g (evs @ [EvClose])) = snd (gr_run g evs)"
proof -
  let ?g = "fst (gr_run g evs)"
  let ?b = "read_bytes evs"
  have "int (length ?b) < 2 ^ 63" using assms(2) by simp
  then have buf: "gr_buf ?g =
      (if \<not> closed_or_ended evs \<and> (?b = [] \<or> int (length ?b) \<le> gr_maxSize g)
       then Some ?b else None)"
    using assms(1) gr_run_buf by blast
  have c: "gr_ttl ?g = gr_ttl g" "gr_cacheKey ?g = gr_cacheKey g" "gr_maxSize ?g = gr_maxSize g"
    using gr_run_consts [of g evs] by simp_all
  have w: "wrap64 (int (length ?b) + int (length data)) = int (length (?b @ data))"
    using assms(2) by (rule wrap64_length)
  have t: "wrap64 (gr_ttl g - since) = gr_ttl g - since"
    using assms(3) by (simp add: int64_range_def wrap64_id)
  have st: "fst (snd (gr_Read ?g data err since)) =
      (if err = REOF \<and> \<not> closed_or_ended evs
          \<and> (?b @ data = [] \<or> int (length (?b @ data)) \<le> gr_maxSize g)
          \<and> 0 < gr_ttl g - since
       then [\<lparr>st_key = gr_cacheKey g, st_value = buffer_bytes (?b @ data),
              st_ttl = gr_ttl g - since\<rparr>]
       else [])"
  proof (cases "gr_buf ?g")
    case None
    then have "closed_or_ended evs \<or> (?b \<noteq> [] \<and> \<not> int (length ?b) \<le> gr_maxSize g)"
      using buf by (simp split: if_splits)
    then show ?thesis using None by (auto simp: gr_Read_stores)
  next
    case (Some b)
    then have b: "b = ?b" "\<not> closed_or_ended evs" "?b = [] \<or> int (length ?b) \<le> gr_maxSize g"
      using buf by (simp_all split: if_splits)
    show ?thesis using Some b c w t by (auto simp: gr_Read_stores)
  qed
  show ?thesis
    by (simp add: st gr_Read_returns gr_run_snoc_read gr_run_snoc_close)
qed

theorem getReader_stores_complete_object_witness:
  "fst (snd (gr_Read (fst (gr_run \<lparr>gr_r = (), gr_buf = Some [], gr_ttl = 60,
                                   gr_cacheKey = ''content:obj'', gr_maxSize = 100\<rparr>
                            [EvRead ''ab'' (RNil :: unit rerr) 1]))
                     ''c'' (REOF :: unit rerr) 2))
     = [\<lparr>st_key = ''content:obj'', st_value = Some ''abc'', st_ttl = 58\<rparr>]"
proof -
  let ?g = "\<lparr>gr_r = (), gr_buf = Some [], gr_ttl = 60, gr_cacheKey = ''content:obj'',
             gr_maxSize = 100\<rparr>"
  let ?evs = "[EvRead ''ab'' (RNil :: unit rerr) 1]"
  have h1: "gr_buf ?g = Some []" by simp
  have h2: "int (length (read_bytes ?evs @ ''c'')) < 2 ^ 63" by simp
  have h3: "int64_range (gr_ttl ?g - 2)" by (simp add: int64_range_def)
  note t = getReader_stores_complete_object [OF h1 h2 h3, of "REOF :: unit rerr"]
  have "fst (snd (gr_Read (fst (gr_run ?g ?evs)) ''c'' (REOF :: unit rerr) 2)) \<noteq> []"
    using t [THEN conjunct1] by simp
  then show ?thesis using t [THEN conjunct2, THEN conjunct1] by (simp add: buffer_bytes_def)
qed

theorem getReader_stores_counterexample:
  "gr_buf (fst (gr_Read \<lparr>gr_r = (), gr_buf = Some [], gr_ttl = 5, gr_cacheKey = ''content:obj'',
                         gr_maxSize = 100\<rparr> ''abc'' (RNil :: unit rerr) 7)) = Some ''abc''
   \<and> fst (snd (gr_Read \<lparr>gr_r = (), gr_buf = Some [], gr_ttl = 5, gr_cacheKey = ''content:obj'',
                         gr_maxSize = 100\<rparr> ''abc'' (REOF :: unit rerr) 7)) = []"
  by (simp add: gr_Read_def wrap64_def)

section \<open>\<^verbatim>\<open>Iter\<close> returns the visitor's error and stores clean listings only\<close>

lemma bkt_Iter_collecting_err:
  "fst (bkt_Iter entries own_err (collecting f) (acc, v)) =
     (case fst (replay f v entries) of Some e \<Rightarrow> Some e | None \<Rightarrow> own_err)"
proof (induction entries arbitrary: acc v)
  case Nil
  then show ?case by simp
next
  case (Cons n ns)
  show ?case
  proof (cases "f v n")
    case (Pair e v')
    show ?thesis
    proof (cases e)
      case None
      then show ?thesis
        using Pair Cons.IH [of "acc @ [n]" v'] by (simp add: collecting_def)
    next
      case (Some err)
      then show ?thesis using Pair by (simp add: collecting_def)
    qed
  qed
qed

lemma bkt_Iter_collecting_list:
  "fst (replay f v entries) = None \<Longrightarrow>
   fst (snd (bkt_Iter entries own_err (collecting f) (acc, v))) = acc @ entries"
proof (induction entries arbitrary: acc v)
  case Nil
  then show ?case by simp
next
  case (Cons n ns)
  show ?case
  proof (cases "f v n")
    case (Pair e v')
    show ?thesis
    proof (cases e)
      case None
      then show ?thesis
        using Pair Cons.IH [of v' "acc @ [n]"] Cons.prems by (simp add: collecting_def)
    next
      case (Some err)
      then show ?thesis using Pair Cons.prems by simp
    qed
  qed
qed

text \<open>
  Claim C9. With a matching config: when the visitor returns an error on an entry of the
  replayed cached listing, or on an entry of the underlying enumeration, \<^verbatim>\<open>Iter\<close> returns that
  error and stores nothing. A listing is stored only after an enumeration without error, and
  then it is the encoded list of all entries, under the \<^verbatim>\<open>iter\<close> key, with the iteration TTL
  minus the time the enumeration took; nothing is stored when that difference is not
  positive.
\<close>

theorem Iter_visitor_error_and_store:
  assumes "cfg = Some c" and "int64_range (i_ttl c - since)"
  shows "(cached_listing fetch decode dir = Some names \<and> fst (replay f v names) = Some e \<longrightarrow>
            io_result (Iter cfg fetch decode encode entries own_err since dir f v) = Some e
            \<and> io_stores (Iter cfg fetch decode encode entries own_err since dir f v) = [])
       \<and> (cached_listing fetch decode dir = None \<and> fst (replay f v entries) = Some e \<longrightarrow>
            io_result (Iter cfg fetch decode encode entries own_err since dir f v) = Some e
            \<and> io_stores (Iter cfg fetch decode encode entries own_err since dir f v) = [])
       \<and> (io_stores (Iter cfg fetch decode encode entries own_err since dir f v) \<noteq> [] \<longrightarrow>
            cached_listing fetch decode dir = None
            \<and> fst (replay f v entries) = None \<and> own_err = None
            \<and> io_result (Iter cfg fetch decode encode entries own_err since dir f v) = None
            \<and> 0 < i_ttl c - since
            \<and> (\<exists>d. encode entries = Some d
                 \<and> io_stores (Iter cfg fetch decode encode entries own_err since dir f v)
                     = [\<lparr>st_key = BucketCacheKey_String
                                     \<lparr>Verb = IterVerb, Name = dir, Start = 0, End = 0\<rparr>,
                         st_value = d, st_ttl = i_ttl c - since\<rparr>]))
       \<and> (cached_listing fetch decode dir = None \<and> fst (replay f v entries) = None
            \<and> own_err = None \<and> encode entries = Some d \<longrightarrow>
            io_stores (Iter cfg fetch decode encode entries own_err since dir f v)
              = (if 0 < i_ttl c - since
                 then [\<lparr>st_key = BucketCacheKey_String
                                    \<lparr>Verb = IterVerb, Name = dir, Start = 0, End = 0\<rparr>,
                        st_value = d, st_ttl = i_ttl c - since\<rparr>]
                 else []))"
proof -
  have t: "wrap64 (i_ttl c - since) = i_ttl c - since"
    using assms(2) by (simp add: int64_range_def wrap64_id)
  let ?key = "BucketCacheKey_String \<lparr>Verb = IterVerb, Name = dir, Start = 0, End = 0\<rparr>"
  let ?hit = "case lookup (fetch [?key]) ?key of None \<Rightarrow> None | Some d \<Rightarrow> decode d"
  have cl: "cached_listing fetch decode dir = ?hit"
    by (simp add: cached_listing_def Let_def)
  have hit: "?hit = Some names \<Longrightarrow>
      Iter cfg fetch decode encode entries own_err since dir f v =
        \<lparr>io_result = fst (replay f v names), io_visitor = snd (replay f v names),
         io_calls = [], io_stores = []\<rparr>" for names
    using assms(1) by (simp add: Iter_def Let_def)
  let ?r = "bkt_Iter entries own_err (collecting f) ([], v)"
  have miss_err: "?hit = None \<Longrightarrow> fst ?r \<noteq> None \<Longrightarrow>
      io_result (Iter cfg fetch decode encode entries own_err since dir f v) = fst ?r
      \<and> io_stores (Iter cfg fetch decode encode entries own_err since dir f v) = []"
    using assms(1) by (auto simp: Iter_def Let_def)
  have miss_ok: "?hit = None \<Longrightarrow> fst ?r = None \<Longrightarrow>
      io_stores (Iter cfg fetch decode encode entries own_err since dir f v) =
        (if 0 < i_ttl c - since
         then (case encode (fst (snd ?r)) of
                 Some d \<Rightarrow> [\<lparr>st_key = ?key, st_value = d, st_ttl = i_ttl c - since\<rparr>]
               | None \<Rightarrow> [])
         else [])
      \<and> io_result (Iter cfg fetch decode encode entries own_err since dir f v) = None"
    using assms(1) t by (simp add: Iter_def Let_def split: option.split)
  have e: "fst ?r = (case fst (replay f v entries) of Some e \<Rightarrow> Some e | None \<Rightarrow> own_err)"
    by (rule bkt_Iter_collecting_err)
  have l: "fst (replay f v entries) = None \<Longrightarrow> fst (snd ?r) = entries"
    using bkt_Iter_collecting_list [of f v entries own_err "[]"] by simp
  have 1: "cached_listing fetch decode dir = Some names \<and> fst (replay f v names) = Some e \<longrightarrow>
            io_result (Iter cfg fetch decode encode entries own_err since dir f v) = Some e
            \<and> io_stores (Iter cfg fetch decode encode entries own_err since dir f v) = []"
    using hit [of names] cl by simp
  have 2: "cached_listing fetch decode dir = None \<and> fst (replay f v entries) = Some e \<longrightarrow>
            io_result (Iter cfg fetch decode encode entries own_err since dir f v) = Some e
            \<and> io_stores (Iter cfg fetch decode encode entries own_err since dir f v) = []"
    using miss_err cl e by simp
  have 4: "cached_listing fetch decode dir = None \<and> fst (replay f v entries) = None
            \<and> own_err = None \<and> encode entries = Some d \<longrightarrow>
            io_stores (Iter cfg fetch decode encode entries own_err since dir f v)
              = (if 0 < i_ttl c - since
                 then [\<lparr>st_key = ?key, st_value = d, st_ttl = i_ttl c - since\<rparr>]
                 else [])"
  proof (intro impI, elim conjE)
    assume a: "cached_listing fetch decode dir = None" "fst (replay f v entries) = None"
      "own_err = None" "encode entries = Some d"
    have h: "?hit = None" using a(1) cl by simp
    have r: "fst ?r = None" using e a(2,3) by simp
    have ls: "fst (snd ?r) = entries" using l a(2) by simp
    show "io_stores (Iter cfg fetch decode encode entries own_err since dir f v)
              = (if 0 < i_ttl c - since
                 then [\<lparr>st_key = ?key, st_value = d, st_ttl = i_ttl c - since\<rparr>]
                 else [])"
      using miss_ok [OF h r] ls a(4) by simp
  qed
  have 3: "io_stores (Iter cfg fetch decode encode entries own_err since dir f v) \<noteq> [] \<longrightarrow>
            cached_listing fetch decode dir = None
            \<and> fst (replay f v entries) = None \<and> own_err = None
            \<and> io_result (Iter cfg fetch decode encode entries own_err since dir f v) = None
            \<and> 0 < i_ttl c - since
            \<and> (\<exists>d. encode entries = Some d
                 \<and> io_stores (Iter cfg fetch decode encode entries own_err since dir f v)
                     = [\<lparr>st_key = ?key, st_value = d, st_ttl = i_ttl c - since\<rparr>])"
  proof
    assume ne: "io_stores (Iter cfg fetch decode encode entries own_err since dir f v) \<noteq> []"
    have h: "?hit = None"
    proof (cases ?hit)
      case None
      then show ?thesis .
    next
      case (Some ns)
      then show ?thesis using hit [of ns] ne by simp
    qed
    have r: "fst ?r = None"
    proof (rule ccontr)
      assume "fst ?r \<noteq> None"
      then show False using miss_err [OF h] ne by simp
    qed
    have rp: "fst (replay f v entries) = None" "own_err = None"
      using r e by (simp_all split: option.splits)
    have ls: "fst (snd ?r) = entries" using l rp(1) by simp
    show "cached_listing fetch decode dir = None
            \<and> fst (replay f v entries) = None \<and> own_err = None
            \<and> io_result (Iter cfg fetch decode encode entries own_err since dir f v) = None
            \<and> 0 < i_ttl c - since
            \<and> (\<exists>d. encode entries = Some d
                 \<and> io_stores (Iter cfg fetch decode encode entries own_err since dir f v)
                     = [\<lparr>st_key = ?key, st_value = d, st_ttl = i_ttl c - since\<rparr>])"
      using miss_ok [OF h r] ne ls rp cl h
      by (cases "encode entries") (simp_all split: if_splits)
  qed
  show ?thesis using 1 2 3 4 by (intro conjI)
qed


theorem Iter_visitor_error_and_store_witness:
  "io_result (Iter (Some \<lparr>i_ttl = 60\<rparr>) (\<lambda>ks. Map.empty) (\<lambda>d. None)
                (\<lambda>l. Some (Some (concat l))) [''a'', ''b'', ''c'', ''d''] None 5 ''dir''
                (\<lambda>v n. (if v = (2::nat) then Some (OtherError ()) else None, v + 1)) 0)
     = Some (OtherError ())
   \<and> io_stores (Iter (Some \<lparr>i_ttl = 60\<rparr>) (\<lambda>ks. Map.empty) (\<lambda>d. None)
                (\<lambda>l. Some (Some (concat l))) [''a'', ''b'', ''c'', ''d''] None 5 ''dir''
                (\<lambda>v n. (if v = (2::nat) then Some (OtherError ()) else None, v + 1)) 0)
     = []
   \<and> io_stores (Iter (Some \<lparr>i_ttl = 60\<rparr>) (\<lambda>ks. Map.empty) (\<lambda>d. None)
                (\<lambda>l. Some (Some (concat l))) [''a'', ''b''] (None :: unit error option) 5 ''dir''
                (\<lambda>v n. (None, v + 1)) (0::nat))
     = [\<lparr>st_key = ''iter:dir'', st_value = Some ''ab'', st_ttl = 55\<rparr>]"
proof -
  let ?f = "\<lambda>v n. (if v = (2::nat) then Some (OtherError ()) else None, v + 1)"
  let ?g = "\<lambda>(v::nat) (n::string). (None :: unit error option, v + 1)"
  let ?fetch = "\<lambda>ks :: string list. (Map.empty :: bytes_map)"
  let ?dec = "\<lambda>d :: string. (None :: string list option)"
  let ?enc = "\<lambda>l :: string list. Some (Some (concat l))"
  have h1: "Some \<lparr>i_ttl = 60\<rparr> = Some \<lparr>i_ttl = 60\<rparr>" by simp
  have h2: "int64_range (i_ttl \<lparr>i_ttl = 60\<rparr> - 5)" by (simp add: int64_range_def)
  have m: "cached_listing ?fetch ?dec ''dir'' = None"
    by (simp add: cached_listing_def Let_def lookup_def)
  have e: "fst (replay ?f 0 [''a'', ''b'', ''c'', ''d'']) = Some (OtherError ())" by simp
  have c: "fst (replay ?g 0 [''a'', ''b'']) = None" by simp
  note t = Iter_visitor_error_and_store [OF h1 h2, where fetch = ?fetch and decode = ?dec
      and dir = "''dir''" and f = ?f and v = 0 and e = "OtherError ()" and encode = ?enc
      and entries = "[''a'', ''b'', ''c'', ''d'']" and own_err = None]
  note u = Iter_visitor_error_and_store [OF h1 h2, where fetch = ?fetch and decode = ?dec
      and dir = "''dir''" and f = ?g and v = 0 and encode = ?enc
      and entries = "[''a'', ''b'']" and own_err = None and d = "Some ''ab''"]
  have a: "io_result (Iter (Some \<lparr>i_ttl = 60\<rparr>) ?fetch ?dec ?enc [''a'', ''b'', ''c'', ''d''] None 5
              ''dir'' ?f 0) = Some (OtherError ())
         \<and> io_stores (Iter (Some \<lparr>i_ttl = 60\<rparr>) ?fetch ?dec ?enc [''a'', ''b'', ''c'', ''d''] None 5
              ''dir'' ?f 0) = []"
    using t [THEN conjunct2, THEN conjunct1] m e by blast
  have b: "io_stores (Iter (Some \<lparr>i_ttl = 60\<rparr>) ?fetch ?dec ?enc [''a'', ''b''] None 5 ''dir'' ?g 0)
         = (if 0 < i_ttl \<lparr>i_ttl = 60\<rparr> - 5
            then [\<lparr>st_key = BucketCacheKey_String
                              \<lparr>Verb = IterVerb, Name = ''dir'', Start = 0, End = 0\<rparr>,
                   st_value = Some ''ab'', st_ttl = i_ttl \<lparr>i_ttl = 60\<rparr> - 5\<rparr>]
            else [])"
    using u [THEN conjunct2, THEN conjunct2, THEN conjunct2] m c by simp
  have k: "BucketCacheKey_String \<lparr>Verb = IterVerb, Name = ''dir'', Start = 0, End = 0\<rparr> = ''iter:dir''"
    by (simp add: BucketCacheKey_String_def IterVerb_def)
  show ?thesis using a b k by simp
qed

end
